theory Spec2Isabelle
  imports Main "HOL-Library.Word"
begin

section \<open>The task frequency scheduler (task.h, task.c)\<close>

text \<open>
  The source holds two revisions of task.c. The later one keeps the state in one struct,
  \<^verbatim>\<open>task_scheduler_t\<close>, the earlier one in four separate variables; the table and the
  bodies of \<^verbatim>\<open>task_tick\<close>, \<^verbatim>\<open>task_handler\<close> and \<^verbatim>\<open>task_register_handler\<close> are the same in
  both. The model follows the later revision, and line numbers refer to it.
\<close>

subsection \<open>Types and constants\<close>

text \<open>
  \<^verbatim>\<open>task_type_t\<close> of task.h: the enumerators are consecutive integers starting at 0, and
  \<^verbatim>\<open>TASK_COUNT\<close> is the number of slots. The slots index the arrays of the scheduler, so
  they are natural numbers here.
\<close>

definition TASK_1HZ :: nat where "TASK_1HZ = 0"
definition TASK_2HZ :: nat where "TASK_2HZ = 1"
definition TASK_5HZ :: nat where "TASK_5HZ = 2"
definition TASK_10HZ :: nat where "TASK_10HZ = 3"
definition TASK_20HZ :: nat where "TASK_20HZ = 4"
definition TASK_50HZ :: nat where "TASK_50HZ = 5"
definition TASK_100HZ :: nat where "TASK_100HZ = 6"
definition TASK_200HZ :: nat where "TASK_200HZ = 7"
definition TASK_COUNT :: nat where "TASK_COUNT = 8"

text \<open>The tick thresholds of task.c (a tick is 1 ms).\<close>

definition TICK_1HZ :: nat where "TICK_1HZ = 1000"
definition TICK_2HZ :: nat where "TICK_2HZ = 500"
definition TICK_5HZ :: nat where "TICK_5HZ = 200"
definition TICK_10HZ :: nat where "TICK_10HZ = 100"
definition TICK_20HZ :: nat where "TICK_20HZ = 50"
definition TICK_50HZ :: nat where "TICK_50HZ = 20"
definition TICK_100HZ :: nat where "TICK_100HZ = 10"
definition TICK_200HZ :: nat where "TICK_200HZ = 5"

text \<open>
  \<^verbatim>\<open>static const uint16_t task_ticks[TASK_COUNT]\<close>: the designated initialisers list the
  slots in the order of the enumeration.
\<close>

definition task_ticks :: "16 word list" where
  "task_ticks =
     [of_nat TICK_1HZ, of_nat TICK_2HZ, of_nat TICK_5HZ, of_nat TICK_10HZ,
      of_nat TICK_20HZ, of_nat TICK_50HZ, of_nat TICK_100HZ, of_nat TICK_200HZ]"

text \<open>
  \<^verbatim>\<open>task_handler_cb_t\<close> is a pointer to a function \<^verbatim>\<open>void f(void)\<close>: \<open>None\<close> is
  \<^verbatim>\<open>NULL\<close>, \<open>Some f\<close> points to the function number \<open>f\<close>.
\<close>

type_synonym task_handler_cb_t = "nat option"

text \<open>\<^verbatim>\<open>task_scheduler_t\<close>: the arrays are lists of \<^verbatim>\<open>TASK_COUNT\<close> entries.\<close>

record task_scheduler_t =
  tick_count :: "32 word"
  flags :: "8 word list"
  overflow_count :: "8 word list"
  handler_cb :: "task_handler_cb_t list"

text \<open>\<^verbatim>\<open>static task_scheduler_t scheduler = {0}\<close>: the state the program starts in.\<close>

definition scheduler :: task_scheduler_t where
  "scheduler =
     \<lparr>tick_count = 0, flags = replicate TASK_COUNT 0,
      overflow_count = replicate TASK_COUNT 0, handler_cb = replicate TASK_COUNT None\<rparr>"

text \<open>
  What the C type says of every value of the struct: each array has \<^verbatim>\<open>TASK_COUNT\<close>
  entries.
\<close>

definition well_formed :: "task_scheduler_t \<Rightarrow> bool" where
  "well_formed s \<longleftrightarrow>
     length (flags s) = TASK_COUNT \<and> length (overflow_count s) = TASK_COUNT \<and>
     length (handler_cb s) = TASK_COUNT"

subsection \<open>task_tick\<close>

text \<open>
  The body of the loop of \<^verbatim>\<open>task_tick\<close> for slot \<open>i\<close>. The table entry is converted to
  the type of \<^verbatim>\<open>tick_count\<close> before the remainder is taken; \<^verbatim>\<open>overflow_count[i]++\<close> is
  an addition on \<^verbatim>\<open>uint8_t\<close>.
\<close>

definition task_tick_slot :: "nat \<Rightarrow> task_scheduler_t \<Rightarrow> task_scheduler_t" where
  "task_tick_slot i s =
     (if tick_count s mod ucast (task_ticks ! i) = 0 then
        let s1 = (if flags s ! i = 1
                  then s\<lparr>overflow_count := (overflow_count s)[i := overflow_count s ! i + 1]\<rparr>
                  else s)
        in s1\<lparr>flags := (flags s1)[i := 1]\<rparr>
      else s)"

text \<open>\<^verbatim>\<open>for (uint8_t i = 0; i < TASK_COUNT; i++)\<close>, from the index \<open>i\<close> on.\<close>

function task_tick_loop :: "nat \<Rightarrow> task_scheduler_t \<Rightarrow> task_scheduler_t" where
  "task_tick_loop i s =
     (if i < TASK_COUNT then task_tick_loop (i + 1) (task_tick_slot i s) else s)"
  by pat_completeness auto
termination
  by (relation "measure (\<lambda>(i, s). TASK_COUNT - i)") auto

declare task_tick_loop.simps [simp del]

definition task_tick :: "task_scheduler_t \<Rightarrow> task_scheduler_t" where
  "task_tick s =
     (let s1 = s\<lparr>tick_count := tick_count s + 1\<rparr>;
          s2 = task_tick_loop 0 s1
      in if of_nat TICK_1HZ \<le> tick_count s2 then s2\<lparr>tick_count := 0\<rparr> else s2)"

subsection \<open>task_handler\<close>

text \<open>
  A call of a registered function is recorded as an event: the slot whose table entry
  was called, the function called, and the flags as they are at the moment of the call.
  The called function returns to the loop with the scheduler as it found it: the
  variable \<^verbatim>\<open>scheduler\<close> is \<^verbatim>\<open>static\<close> in task.c, and callbacks that call back into the
  scheduler are outside this model.
\<close>

datatype invocation = Invocation (slot: nat) (callee: nat) (flags_seen: "8 word list")

definition task_handler_slot ::
  "nat \<Rightarrow> task_scheduler_t \<times> invocation list \<Rightarrow> task_scheduler_t \<times> invocation list" where
  "task_handler_slot i st =
     (let s = fst st; tr = snd st in
      if flags s ! i \<noteq> 0 then
        let s1 = s\<lparr>flags := (flags s)[i := 0]\<rparr> in
        (case handler_cb s1 ! i of
           None \<Rightarrow> (s1, tr)
         | Some f \<Rightarrow> (s1, tr @ [Invocation i f (flags s1)]))
      else (s, tr))"

function task_handler_loop ::
  "nat \<Rightarrow> task_scheduler_t \<times> invocation list \<Rightarrow> task_scheduler_t \<times> invocation list" where
  "task_handler_loop i st =
     (if i < TASK_COUNT then task_handler_loop (i + 1) (task_handler_slot i st) else st)"
  by pat_completeness auto
termination
  by (relation "measure (\<lambda>(i, st). TASK_COUNT - i)") auto

declare task_handler_loop.simps [simp del]

definition task_handler :: "task_scheduler_t \<Rightarrow> task_scheduler_t \<times> invocation list" where
  "task_handler s = task_handler_loop 0 (s, [])"

subsection \<open>task_register_handler\<close>

text \<open>
  The argument is the integer value of the \<^verbatim>\<open>task_type_t\<close> passed. The only check of the
  source is \<^verbatim>\<open>task_type < TASK_COUNT\<close>. A negative value (which exists only where the
  compiler represents the enumeration by a signed type) passes that check and indexes
  before the array: the write is out of bounds, which is the error of the model.
\<close>

datatype error = Out_of_bounds_write

definition task_register_handler ::
  "int \<Rightarrow> task_handler_cb_t \<Rightarrow> task_scheduler_t \<Rightarrow> error + task_scheduler_t" where
  "task_register_handler task_type handler s =
     (if task_type < int TASK_COUNT then
        (if 0 \<le> task_type
         then Inr (s\<lparr>handler_cb := (handler_cb s)[nat task_type := handler]\<rparr>)
         else Inl Out_of_bounds_write)
      else Inr s)"


subsection \<open>Observing runs of the scheduler\<close>

text \<open>
  \<open>raised i s\<close>: the call of \<^verbatim>\<open>task_tick\<close> made in state \<open>s\<close> raises slot \<open>i\<close>, that is,
  the test of line 90 succeeds for \<open>i\<close> on the incremented counter.
  \<open>overflowed i s\<close>: that call also takes the branch of line 92, an overflow event.
\<close>

definition raised :: "nat \<Rightarrow> task_scheduler_t \<Rightarrow> bool" where
  "raised i s \<longleftrightarrow> (tick_count s + 1) mod ucast (task_ticks ! i) = 0"

definition overflowed :: "nat \<Rightarrow> task_scheduler_t \<Rightarrow> bool" where
  "overflowed i s \<longleftrightarrow> raised i s \<and> flags s ! i = 1"

text \<open>\<open>n\<close> calls of \<^verbatim>\<open>task_tick\<close> in a row, with no other call in between.\<close>

primrec task_tick_n :: "nat \<Rightarrow> task_scheduler_t \<Rightarrow> task_scheduler_t" where
  "task_tick_n 0 s = s"
| "task_tick_n (Suc n) s = task_tick_n n (task_tick s)"

text \<open>How often these \<open>n\<close> calls raise slot \<open>i\<close>, and how many overflow events they see.\<close>

primrec raises :: "nat \<Rightarrow> nat \<Rightarrow> task_scheduler_t \<Rightarrow> nat" where
  "raises i 0 s = 0"
| "raises i (Suc n) s = (if raised i s then 1 else 0) + raises i n (task_tick s)"

primrec overflows :: "nat \<Rightarrow> nat \<Rightarrow> task_scheduler_t \<Rightarrow> nat" where
  "overflows i 0 s = 0"
| "overflows i (Suc n) s = (if overflowed i s then 1 else 0) + overflows i n (task_tick s)"

text \<open>
  A raise as the state shows it, with no reference to the test of line 90: the call of
  \<^verbatim>\<open>task_tick\<close> made in state \<open>s\<close> leaves the flag of slot \<open>i\<close> at 1, and where the flag
  was 1 already, the call has counted the overflow of line 95 (a raise of a flag that
  is still pending shows in the overflow count only).
\<close>

definition tick_raises :: "nat \<Rightarrow> task_scheduler_t \<Rightarrow> bool" where
  "tick_raises i s \<longleftrightarrow>
     flags (task_tick s) ! i = 1 \<and>
     (flags s ! i = 1 \<longrightarrow> overflow_count (task_tick s) ! i = overflow_count s ! i + 1)"

text \<open>
  The calls among the first \<open>n\<close> (counted from 1) that raise slot \<open>i\<close>, in order, read off
  the states of the run, and the distances between neighbours in such a list.
\<close>

definition raise_ticks :: "nat \<Rightarrow> nat \<Rightarrow> task_scheduler_t \<Rightarrow> nat list" where
  "raise_ticks i n s = filter (\<lambda>k. tick_raises i (task_tick_n (k - 1) s)) [1..<Suc n]"

definition gaps :: "nat list \<Rightarrow> nat list" where
  "gaps xs = map (\<lambda>(a, b). b - a) (zip xs (tl xs))"

text \<open>
  The public entry points as calls, and a run of a sequence of calls. A run stops at the
  first error. \<open>overflow_events i cs s\<close> counts the overflow events of slot \<open>i\<close> in the
  run of \<open>cs\<close> from \<open>s\<close>.
\<close>

datatype call = Tick | Handler | Register int task_handler_cb_t

fun step :: "call \<Rightarrow> task_scheduler_t \<Rightarrow> error + task_scheduler_t" where
  "step Tick s = Inr (task_tick s)"
| "step Handler s = Inr (fst (task_handler s))"
| "step (Register task_type handler) s = task_register_handler task_type handler s"

fun run :: "call list \<Rightarrow> task_scheduler_t \<Rightarrow> error + task_scheduler_t" where
  "run [] s = Inr s"
| "run (c # cs) s = (case step c s of Inl e \<Rightarrow> Inl e | Inr s' \<Rightarrow> run cs s')"

fun overflow_events :: "nat \<Rightarrow> call list \<Rightarrow> task_scheduler_t \<Rightarrow> nat" where
  "overflow_events i [] s = 0"
| "overflow_events i (c # cs) s =
     (if c = Tick \<and> overflowed i s then 1 else 0) +
     (case step c s of Inl e \<Rightarrow> 0 | Inr s' \<Rightarrow> overflow_events i cs s')"

section \<open>Properties\<close>

subsection \<open>The table\<close>

lemmas tick_defs =
  TICK_1HZ_def TICK_2HZ_def TICK_5HZ_def TICK_10HZ_def
  TICK_20HZ_def TICK_50HZ_def TICK_100HZ_def TICK_200HZ_def

lemma slot_cases:
  "i < TASK_COUNT \<Longrightarrow> i = 0 \<or> i = 1 \<or> i = 2 \<or> i = 3 \<or> i = 4 \<or> i = 5 \<or> i = 6 \<or> i = 7"
  unfolding TASK_COUNT_def by arith

lemma period_dvd: "i < TASK_COUNT \<Longrightarrow> unat (task_ticks ! i) dvd 1000"
  by (drule slot_cases) (auto simp: task_ticks_def tick_defs)

lemma period_pos: "i < TASK_COUNT \<Longrightarrow> 0 < unat (task_ticks ! i)"
  by (drule slot_cases) (auto simp: task_ticks_def tick_defs)

lemma well_formed_scheduler: "well_formed scheduler"
  by (simp add: well_formed_def scheduler_def)

subsection \<open>One call of task_tick\<close>

lemma tick_slot_fields [simp]:
  "tick_count (task_tick_slot i s) = tick_count s"
  "handler_cb (task_tick_slot i s) = handler_cb s"
  "length (flags (task_tick_slot i s)) = length (flags s)"
  "length (overflow_count (task_tick_slot i s)) = length (overflow_count s)"
  by (simp_all add: task_tick_slot_def Let_def)

lemma tick_loop_fields [simp]:
  "tick_count (task_tick_loop i s) = tick_count s"
  "handler_cb (task_tick_loop i s) = handler_cb s"
  "length (flags (task_tick_loop i s)) = length (flags s)"
  "length (overflow_count (task_tick_loop i s)) = length (overflow_count s)"
  by (induction i s rule: task_tick_loop.induct; subst task_tick_loop.simps; simp)+

lemma tick_slot_flags_nth:
  "j < length (flags s) \<Longrightarrow>
   flags (task_tick_slot i s) ! j =
     (if j = i \<and> tick_count s mod ucast (task_ticks ! i) = 0 then 1 else flags s ! j)"
  by (simp add: task_tick_slot_def Let_def nth_list_update)

lemma tick_slot_overflow_nth:
  "j < length (overflow_count s) \<Longrightarrow>
   overflow_count (task_tick_slot i s) ! j =
     (if j = i \<and> tick_count s mod ucast (task_ticks ! i) = 0 \<and> flags s ! i = 1
      then overflow_count s ! j + 1 else overflow_count s ! j)"
  by (simp add: task_tick_slot_def Let_def nth_list_update)

lemma tick_loop_flags_nth:
  "j < length (flags s) \<Longrightarrow>
   flags (task_tick_loop i s) ! j =
     (if i \<le> j \<and> j < TASK_COUNT \<and> tick_count s mod ucast (task_ticks ! j) = 0
      then 1 else flags s ! j)"
proof (induction i s rule: task_tick_loop.induct)
  case (1 i s)
  show ?case
  proof (cases "i < TASK_COUNT")
    case True
    then show ?thesis using 1
      by (subst task_tick_loop.simps) (cases "j = i"; auto simp: tick_slot_flags_nth)
  next
    case False
    then show ?thesis by (subst task_tick_loop.simps) auto
  qed
qed

lemma tick_loop_overflow_nth:
  "j < length (overflow_count s) \<Longrightarrow> length (flags s) = length (overflow_count s) \<Longrightarrow>
   overflow_count (task_tick_loop i s) ! j =
     (if i \<le> j \<and> j < TASK_COUNT \<and> tick_count s mod ucast (task_ticks ! j) = 0 \<and>
         flags s ! j = 1
      then overflow_count s ! j + 1 else overflow_count s ! j)"
proof (induction i s rule: task_tick_loop.induct)
  case (1 i s)
  show ?case
  proof (cases "i < TASK_COUNT")
    case True
    then show ?thesis using 1
      by (subst task_tick_loop.simps)
         (cases "j = i"; auto simp: tick_slot_overflow_nth tick_slot_flags_nth)
  next
    case False
    then show ?thesis by (subst task_tick_loop.simps) auto
  qed
qed

lemma task_tick_tick_count:
  "tick_count (task_tick s) = (if 1000 \<le> tick_count s + 1 then 0 else tick_count s + 1)"
  by (simp add: task_tick_def Let_def TICK_1HZ_def)

lemma task_tick_handler_cb [simp]: "handler_cb (task_tick s) = handler_cb s"
  by (simp add: task_tick_def Let_def)

lemma task_tick_well_formed [simp]: "well_formed (task_tick s) = well_formed s"
  by (simp add: task_tick_def Let_def well_formed_def)

lemma task_tick_flags:
  "well_formed s \<Longrightarrow> i < TASK_COUNT \<Longrightarrow>
   flags (task_tick s) ! i = (if raised i s then 1 else flags s ! i)"
  by (simp add: task_tick_def Let_def well_formed_def tick_loop_flags_nth raised_def)

lemma task_tick_overflow_count:
  "well_formed s \<Longrightarrow> i < TASK_COUNT \<Longrightarrow>
   overflow_count (task_tick s) ! i =
     (if overflowed i s then overflow_count s ! i + 1 else overflow_count s ! i)"
  by (simp add: task_tick_def Let_def well_formed_def tick_loop_overflow_nth raised_def overflowed_def)

subsection \<open>The counter as a natural number\<close>

lemma unat_ucast_16_32: "unat (ucast (w :: 16 word) :: 32 word) = unat w"
proof -
  have "unat w < 2 ^ LENGTH(16)" by (rule unsigned_less)
  then have "unat w < 2 ^ 32" by simp
  then show ?thesis by (simp add: unsigned_ucast_eq take_bit_nat_eq_self)
qed

lemma unat_tick_succ: "unat (tc :: 32 word) < 1000 \<Longrightarrow> unat (tc + 1) = unat tc + 1"
  by (simp add: unat_word_ariths)

lemma raised_iff:
  assumes "unat (tick_count s) < 1000"
  shows "raised i s \<longleftrightarrow> unat (task_ticks ! i) dvd unat (tick_count s) + 1"
proof -
  have "raised i s \<longleftrightarrow> unat ((tick_count s + 1) mod ucast (task_ticks ! i)) = 0"
    by (simp add: raised_def unat_eq_zero)
  also have "\<dots> \<longleftrightarrow> (unat (tick_count s) + 1) mod unat (task_ticks ! i) = 0"
    by (simp add: unat_mod unat_tick_succ [OF assms] unat_ucast_16_32)
  finally show ?thesis by (simp add: mod_eq_0_iff_dvd)
qed

lemma unat_task_tick:
  assumes "unat (tick_count s) < 1000"
  shows "unat (tick_count (task_tick s)) = (unat (tick_count s) + 1) mod 1000"
proof -
  have "(1000 \<le> tick_count s + 1) \<longleftrightarrow> 1000 \<le> unat (tick_count s) + 1"
    using unat_tick_succ [OF assms] by (simp add: word_le_nat_alt)
  then show ?thesis using assms unat_tick_succ [OF assms]
    by (cases "unat (tick_count s) = 999") (auto simp: task_tick_tick_count)
qed

subsection \<open>Runs of task_tick\<close>

lemma task_tick_n_well_formed [simp]: "well_formed (task_tick_n n s) = well_formed s"
  by (induction n arbitrary: s) simp_all

lemma task_tick_n_handler_cb [simp]: "handler_cb (task_tick_n n s) = handler_cb s"
  by (induction n arbitrary: s) simp_all

lemma overflow_count_task_tick_n:
  "well_formed s \<Longrightarrow> i < TASK_COUNT \<Longrightarrow>
   overflow_count (task_tick_n n s) ! i = overflow_count s ! i + of_nat (overflows i n s)"
  by (induction n arbitrary: s) (simp_all add: task_tick_overflow_count)

lemma flags_task_tick_n:
  "well_formed s \<Longrightarrow> i < TASK_COUNT \<Longrightarrow>
   flags (task_tick_n n s) ! i = (if 0 < raises i n s then 1 else flags s ! i)"
  by (induction n arbitrary: s) (simp_all add: task_tick_flags)

text \<open>
  Every raise but the first finds the flag set by the raise before it; the first one
  finds it as the run found it.
\<close>

lemma overflows_raises:
  "well_formed s \<Longrightarrow> i < TASK_COUNT \<Longrightarrow>
   overflows i n s = raises i n s - (if flags s ! i = 1 then 0 else 1)"
  by (induction n arbitrary: s) (simp_all add: task_tick_flags overflowed_def)

text \<open>
  The counter is the number \<open>a\<close> of calls made so far, modulo 1000. Every period divides
  1000, so the reset does not disturb the raises: the next \<open>n\<close> calls raise slot \<open>i\<close> once
  for every multiple of its period in \<open>a + 1, \<dots>, a + n\<close>.
\<close>

lemma raised_abs:
  assumes "i < TASK_COUNT" and "unat (tick_count s) = a mod 1000"
  shows "raised i s \<longleftrightarrow> unat (task_ticks ! i) dvd Suc a"
proof -
  have ok: "unat (tick_count s) < 1000" using assms(2) by simp
  have "raised i s \<longleftrightarrow> unat (task_ticks ! i) dvd Suc (a mod 1000)"
    using raised_iff [OF ok] assms(2) by simp
  also have "\<dots> \<longleftrightarrow> unat (task_ticks ! i) dvd Suc a"
    using period_dvd [OF assms(1)] by (metis dvd_mod_iff mod_Suc_eq)
  finally show ?thesis .
qed

lemma unat_task_tick_abs:
  assumes "unat (tick_count s) = a mod 1000"
  shows "unat (tick_count (task_tick s)) = Suc a mod 1000"
proof -
  have ok: "unat (tick_count s) < 1000" using assms by simp
  show ?thesis using unat_task_tick [OF ok] assms by (simp add: mod_Suc_eq)
qed

lemma unat_task_tick_n_abs:
  "unat (tick_count s) = a mod 1000 \<Longrightarrow>
   unat (tick_count (task_tick_n n s)) = (a + n) mod 1000"
proof (induction n arbitrary: s a)
  case 0
  then show ?case by simp
next
  case (Suc n)
  from Suc.IH [OF unat_task_tick_abs [OF Suc.prems]] show ?case by simp
qed

lemma raises_abs:
  "i < TASK_COUNT \<Longrightarrow> unat (tick_count s) = a mod 1000 \<Longrightarrow>
   raises i n s = (a + n) div unat (task_ticks ! i) - a div unat (task_ticks ! i)"
proof (induction n arbitrary: s a)
  case 0
  then show ?case by simp
next
  case (Suc n)
  let ?p = "unat (task_ticks ! i)"
  have r: "raised i s \<longleftrightarrow> ?p dvd Suc a"
    by (rule raised_abs [OF Suc.prems])
  have mono: "Suc a div ?p \<le> (Suc a + n) div ?p"
    by (simp add: div_le_mono)
  have "raises i (Suc n) s =
      (if ?p dvd Suc a then 1 else 0) + ((Suc a + n) div ?p - Suc a div ?p)"
    using Suc.IH [OF Suc.prems(1) unat_task_tick_abs [OF Suc.prems(2)]] r by simp
  also have "\<dots> = (a + Suc n) div ?p - a div ?p"
    using mono by (auto simp: div_Suc mod_eq_0_iff_dvd)
  finally show ?case .
qed

lemma tick_count_scheduler: "unat (tick_count scheduler) = 0 mod 1000"
  by (simp add: scheduler_def)

lemma raises_scheduler:
  "i < TASK_COUNT \<Longrightarrow> raises i n scheduler = n div unat (task_ticks ! i)"
  using raises_abs [OF _ tick_count_scheduler, of i n] by simp

lemma period_1HZ: "unat (task_ticks ! TASK_1HZ) = 1000"
  by (simp add: task_ticks_def TASK_1HZ_def TICK_1HZ_def)

lemma period_200HZ: "unat (task_ticks ! TASK_200HZ) = 5"
  by (simp add: task_ticks_def TASK_200HZ_def TICK_200HZ_def)

lemma slot_1HZ: "TASK_1HZ < TASK_COUNT"
  by (simp add: TASK_1HZ_def TASK_COUNT_def)

lemma slot_200HZ: "TASK_200HZ < TASK_COUNT"
  by (simp add: TASK_200HZ_def TASK_COUNT_def)

lemma scheduler_nth:
  "i < TASK_COUNT \<Longrightarrow> flags scheduler ! i = 0"
  "i < TASK_COUNT \<Longrightarrow> overflow_count scheduler ! i = 0"
  "i < TASK_COUNT \<Longrightarrow> handler_cb scheduler ! i = None"
  by (simp_all add: scheduler_def)

text \<open>
  From the initial state the \<open>k\<close>-th call raises slot \<open>i\<close> exactly when the period of
  the slot divides \<open>k\<close>.
\<close>

lemma task_tick_n_Suc_last: "task_tick_n (Suc n) s = task_tick (task_tick_n n s)"
  by (induction n arbitrary: s) simp_all

text \<open>
  The two tests of the loop body, seen from outside: an overflow event is a call that
  changes the overflow count, and the test of line 90 succeeds exactly for the calls
  that raise the slot in the state.
\<close>

lemma overflowed_iff_changed:
  "well_formed s \<Longrightarrow> i < TASK_COUNT \<Longrightarrow>
   overflowed i s \<longleftrightarrow> overflow_count (task_tick s) ! i \<noteq> overflow_count s ! i"
  by (simp add: task_tick_overflow_count)

lemma tick_raises_iff_raised:
  "well_formed s \<Longrightarrow> i < TASK_COUNT \<Longrightarrow> tick_raises i s \<longleftrightarrow> raised i s"
  by (auto simp: tick_raises_def task_tick_flags task_tick_overflow_count overflowed_def)

lemma mem_raise_ticks:
  "k \<in> set (raise_ticks i n s) \<longleftrightarrow>
     1 \<le> k \<and> k \<le> n \<and> tick_raises i (task_tick_n (k - 1) s)"
  by (auto simp: raise_ticks_def simp del: upt_Suc)

lemma state_at_raise_ticks:
  assumes "well_formed s" and "i < TASK_COUNT" and "1 \<le> k" and "k \<le> n"
  shows "flags (task_tick_n k s) ! i =
      (if k \<in> set (raise_ticks i n s) then 1 else flags (task_tick_n (k - 1) s) ! i)"
    and "overflow_count (task_tick_n k s) ! i =
      (if k \<in> set (raise_ticks i n s) \<and> flags (task_tick_n (k - 1) s) ! i = 1
       then overflow_count (task_tick_n (k - 1) s) ! i + 1
       else overflow_count (task_tick_n (k - 1) s) ! i)"
proof -
  from assms(3) obtain j where k: "k = Suc j" by (cases k) auto
  have w: "well_formed (task_tick_n j s)" using assms(1) by simp
  have m: "k \<in> set (raise_ticks i n s) \<longleftrightarrow> raised i (task_tick_n j s)"
    using assms(3,4) tick_raises_iff_raised [OF w assms(2)] by (simp add: mem_raise_ticks k)
  show "flags (task_tick_n k s) ! i =
      (if k \<in> set (raise_ticks i n s) then 1 else flags (task_tick_n (k - 1) s) ! i)"
    using task_tick_flags [OF w assms(2)] unfolding m
    by (simp add: k task_tick_n_Suc_last del: task_tick_n.simps)
  show "overflow_count (task_tick_n k s) ! i =
      (if k \<in> set (raise_ticks i n s) \<and> flags (task_tick_n (k - 1) s) ! i = 1
       then overflow_count (task_tick_n (k - 1) s) ! i + 1
       else overflow_count (task_tick_n (k - 1) s) ! i)"
    using task_tick_overflow_count [OF w assms(2)] unfolding m
    by (simp add: k task_tick_n_Suc_last overflowed_def del: task_tick_n.simps)
qed

lemma raised_nth_call:
  assumes "i < TASK_COUNT" "0 < k"
  shows "raised i (task_tick_n (k - 1) scheduler) \<longleftrightarrow> unat (task_ticks ! i) dvd k"
proof -
  have "unat (tick_count (task_tick_n (k - 1) scheduler)) = (0 + (k - 1)) mod 1000"
    by (rule unat_task_tick_n_abs [OF tick_count_scheduler])
  then have "unat (tick_count (task_tick_n (k - 1) scheduler)) = (k - 1) mod 1000" by simp
  from raised_abs [OF assms(1) this] assms(2) show ?thesis by simp
qed

lemma filter_multiples:
  "0 < p \<Longrightarrow> filter (\<lambda>k. p dvd k) [1..<Suc n] = map (\<lambda>j. j * p) [1..<Suc (n div p)]"
proof (induction n)
  case 0
  then show ?case by simp
next
  case (Suc n)
  show ?case
  proof (cases "p dvd Suc n")
    case True
    then have "Suc n div p = Suc (n div p)"
      by (simp add: div_Suc mod_eq_0_iff_dvd)
    moreover have "Suc (n div p) * p = Suc n"
      using True calculation by (metis dvd_div_mult_self)
    ultimately show ?thesis using Suc True by simp
  next
    case False
    then have "Suc n div p = n div p"
      by (simp add: div_Suc mod_eq_0_iff_dvd)
    then show ?thesis using Suc False by simp
  qed
qed

lemma raise_ticks_scheduler:
  assumes "i < TASK_COUNT"
  shows "raise_ticks i n scheduler =
    map (\<lambda>j. j * unat (task_ticks ! i)) [1..<Suc (n div unat (task_ticks ! i))]"
proof -
  have "raise_ticks i n scheduler = filter (\<lambda>k. unat (task_ticks ! i) dvd k) [1..<Suc n]"
    unfolding raise_ticks_def
  proof (rule filter_cong [OF refl])
    fix k assume "k \<in> set [1..<Suc n]"
    then have "0 < k" by (simp del: upt_Suc)
    moreover have "well_formed (task_tick_n (k - 1) scheduler)"
      using well_formed_scheduler by simp
    ultimately
    show "tick_raises i (task_tick_n (k - 1) scheduler) \<longleftrightarrow> unat (task_ticks ! i) dvd k"
      using raised_nth_call [OF assms] tick_raises_iff_raised [OF _ assms] by simp
  qed
  also have "\<dots> = map (\<lambda>j. j * unat (task_ticks ! i)) [1..<Suc (n div unat (task_ticks ! i))]"
    by (rule filter_multiples [OF period_pos [OF assms]])
  finally show ?thesis .
qed

lemma gaps_multiples: "gaps (map (\<lambda>j. j * p) [1..<Suc m]) = replicate (m - 1) p"
  by (rule nth_equalityI) (auto simp: gaps_def nth_tl algebra_simps simp del: upt_Suc)

subsection \<open>One call of task_handler\<close>

lemma handler_slot_fields [simp]:
  "tick_count (fst (task_handler_slot i st)) = tick_count (fst st)"
  "overflow_count (fst (task_handler_slot i st)) = overflow_count (fst st)"
  "handler_cb (fst (task_handler_slot i st)) = handler_cb (fst st)"
  "length (flags (fst (task_handler_slot i st))) = length (flags (fst st))"
  by (simp_all add: task_handler_slot_def Let_def split: option.split)

lemma handler_slot_flags:
  "flags (fst (task_handler_slot i st)) = (flags (fst st))[i := 0]"
  using list_update_id [of "flags (fst st)" i]
  by (cases "flags (fst st) ! i = 0")
     (simp_all add: task_handler_slot_def Let_def split: option.split)

lemma handler_slot_trace:
  "snd (task_handler_slot i st) =
     snd st @
     (if flags (fst st) ! i \<noteq> 0 then
        (case handler_cb (fst st) ! i of
           None \<Rightarrow> []
         | Some f \<Rightarrow> [Invocation i f ((flags (fst st))[i := 0])])
      else [])"
  by (simp add: task_handler_slot_def Let_def split: option.split)

lemma handler_loop_fields [simp]:
  "tick_count (fst (task_handler_loop i st)) = tick_count (fst st)"
  "overflow_count (fst (task_handler_loop i st)) = overflow_count (fst st)"
  "handler_cb (fst (task_handler_loop i st)) = handler_cb (fst st)"
  "length (flags (fst (task_handler_loop i st))) = length (flags (fst st))"
  by (induction i st rule: task_handler_loop.induct; subst task_handler_loop.simps; simp)+

lemma handler_loop_flags_nth:
  "j < length (flags (fst st)) \<Longrightarrow>
   flags (fst (task_handler_loop i st)) ! j =
     (if i \<le> j \<and> j < TASK_COUNT then 0 else flags (fst st) ! j)"
proof (induction i st rule: task_handler_loop.induct)
  case (1 i st)
  show ?case
  proof (cases "i < TASK_COUNT")
    case True
    then show ?thesis using 1
      by (subst task_handler_loop.simps) (cases "j = i"; auto simp: handler_slot_flags)
  next
    case False
    then show ?thesis by (subst task_handler_loop.simps) auto
  qed
qed

text \<open>The slots whose entries are called, in the order of the calls.\<close>

lemma handler_loop_slots:
  "map slot (snd (task_handler_loop i st)) =
     map slot (snd st) @
     filter (\<lambda>k. flags (fst st) ! k \<noteq> 0 \<and> handler_cb (fst st) ! k \<noteq> None)
       [i..<TASK_COUNT]"
proof (induction i st rule: task_handler_loop.induct)
  case (1 i st)
  show ?case
  proof (cases "i < TASK_COUNT")
    case True
    have later:
      "filter (\<lambda>k. flags (fst (task_handler_slot i st)) ! k \<noteq> 0 \<and>
                   handler_cb (fst st) ! k \<noteq> None) [i + 1..<TASK_COUNT] =
       filter (\<lambda>k. flags (fst st) ! k \<noteq> 0 \<and> handler_cb (fst st) ! k \<noteq> None)
         [i + 1..<TASK_COUNT]"
      by (rule filter_cong) (auto simp: handler_slot_flags)
    show ?thesis using True 1 later
      by (subst task_handler_loop.simps)
         (auto simp: upt_conv_Cons [of i] handler_slot_trace split: option.split)
  next
    case False
    then show ?thesis by (subst task_handler_loop.simps) simp
  qed
qed

text \<open>What every called function is, and what it sees of its own flag.\<close>

lemma handler_slot_events:
  assumes "e \<in> set (snd (task_handler_slot i st))"
  shows "e \<in> set (snd st) \<or>
    (\<exists>f. handler_cb (fst st) ! i = Some f \<and> e = Invocation i f ((flags (fst st))[i := 0]))"
  using assms
  by (cases "flags (fst st) ! i = 0"; cases "handler_cb (fst st) ! i")
     (auto simp: handler_slot_trace)

lemma handler_loop_events:
  "length (flags (fst st)) = TASK_COUNT \<Longrightarrow>
   \<forall>e \<in> set (snd st).
      handler_cb (fst st) ! slot e = Some (callee e) \<and> flags_seen e ! slot e = 0 \<Longrightarrow>
   \<forall>e \<in> set (snd (task_handler_loop i st)).
      handler_cb (fst st) ! slot e = Some (callee e) \<and> flags_seen e ! slot e = 0"
proof (induction i st rule: task_handler_loop.induct)
  case (1 i st)
  show ?case
  proof (cases "i < TASK_COUNT")
    case True
    have "\<forall>e \<in> set (snd (task_handler_slot i st)).
       handler_cb (fst st) ! slot e = Some (callee e) \<and> flags_seen e ! slot e = 0"
    proof
      fix e assume "e \<in> set (snd (task_handler_slot i st))"
      from handler_slot_events [OF this]
      show "handler_cb (fst st) ! slot e = Some (callee e) \<and> flags_seen e ! slot e = 0"
        using "1.prems" True by auto
    qed
    then have "\<forall>e \<in> set (snd (task_handler_loop (i + 1) (task_handler_slot i st))).
       handler_cb (fst st) ! slot e = Some (callee e) \<and> flags_seen e ! slot e = 0"
      using "1.IH" [OF True] "1.prems"(1) by simp
    then show ?thesis using True by (simp add: task_handler_loop.simps [of i st])
  next
    case False
    then show ?thesis using "1.prems"(2) by (simp add: task_handler_loop.simps [of i st])
  qed
qed

lemma task_handler_flags:
  "well_formed s \<Longrightarrow> flags (fst (task_handler s)) = replicate TASK_COUNT 0"
  by (intro nth_equalityI) (simp_all add: task_handler_def well_formed_def handler_loop_flags_nth)

lemma task_handler_state:
  "well_formed s \<Longrightarrow> fst (task_handler s) = s\<lparr>flags := replicate TASK_COUNT 0\<rparr>"
  by (intro task_scheduler_t.equality) (simp_all add: task_handler_flags, simp_all add: task_handler_def)

lemma task_handler_well_formed [simp]: "well_formed (fst (task_handler s)) = well_formed s"
  by (simp add: well_formed_def task_handler_def)

lemma task_handler_slots:
  "map slot (snd (task_handler s)) =
     filter (\<lambda>k. flags s ! k \<noteq> 0 \<and> handler_cb s ! k \<noteq> None) [0..<TASK_COUNT]"
  by (simp add: task_handler_def handler_loop_slots)

lemma task_handler_events:
  "well_formed s \<Longrightarrow> e \<in> set (snd (task_handler s)) \<Longrightarrow>
     handler_cb s ! slot e = Some (callee e) \<and> flags_seen e ! slot e = 0"
  using handler_loop_events [of "(s, [])" 0]
  by (simp add: task_handler_def well_formed_def)

lemma count_list_filter:
  "count_list (filter P xs) x = (if P x then count_list xs x else 0)"
  by (induction xs) auto

lemma count_list_upt: "count_list [0..<n] k = (if k < n then 1 else 0)"
  by (induction n) auto

lemma task_handler_idle:
  assumes "well_formed s" and "flags s = replicate TASK_COUNT 0"
  shows "task_handler s = (s, [])"
proof -
  have "map slot (snd (task_handler s)) = []"
    unfolding task_handler_slots using assms(2) by (simp add: filter_empty_conv)
  then have "snd (task_handler s) = []" by simp
  moreover have "fst (task_handler s) = s"
    using task_handler_state [OF assms(1)] assms(2) by simp
  ultimately show ?thesis by (simp add: prod_eq_iff)
qed

subsection \<open>Registration and runs of calls\<close>

lemma register_in_range:
  "0 \<le> t \<Longrightarrow> t < int TASK_COUNT \<Longrightarrow>
   task_register_handler t h s = Inr (s\<lparr>handler_cb := (handler_cb s)[nat t := h]\<rparr>)"
  by (simp add: task_register_handler_def)

lemma register_fields:
  assumes "task_register_handler t h s = Inr s'"
  shows "tick_count s' = tick_count s" and "flags s' = flags s"
    and "overflow_count s' = overflow_count s" and "well_formed s' = well_formed s"
  using assms by (auto simp: task_register_handler_def well_formed_def split: if_splits)

lemma step_tick_count:
  "step c s = Inr s' \<Longrightarrow>
   tick_count s' = (if c = Tick then tick_count (task_tick s) else tick_count s)"
  by (cases c) (auto simp: task_handler_def register_fields)

lemma step_well_formed: "step c s = Inr s' \<Longrightarrow> well_formed s' = well_formed s"
  by (cases c) (auto simp: register_fields)

lemma step_overflow_count:
  "well_formed s \<Longrightarrow> i < TASK_COUNT \<Longrightarrow> step c s = Inr s' \<Longrightarrow>
   overflow_count s' ! i =
     overflow_count s ! i + (if c = Tick \<and> overflowed i s then 1 else 0)"
  by (cases c) (auto simp: task_tick_overflow_count task_handler_def register_fields)

lemma run_tick_count_bounded:
  "unat (tick_count s) < 1000 \<Longrightarrow> run cs s = Inr s' \<Longrightarrow> unat (tick_count s') < 1000"
proof (induction cs arbitrary: s)
  case Nil
  then show ?case by simp
next
  case (Cons c cs)
  from Cons.prems(2) obtain s1 where s1: "step c s = Inr s1" and rest: "run cs s1 = Inr s'"
    by (auto split: sum.splits)
  have "unat (tick_count s1) < 1000"
    using step_tick_count [OF s1] unat_task_tick [OF Cons.prems(1)] Cons.prems(1)
    by (simp split: if_splits)
  from Cons.IH [OF this rest] show ?case .
qed

lemma run_overflow_count:
  "well_formed s \<Longrightarrow> i < TASK_COUNT \<Longrightarrow> run cs s = Inr s' \<Longrightarrow>
   overflow_count s' ! i = overflow_count s ! i + of_nat (overflow_events i cs s)"
proof (induction cs arbitrary: s)
  case Nil
  then show ?case by simp
next
  case (Cons c cs)
  from Cons.prems(3) obtain s1 where s1: "step c s = Inr s1" and rest: "run cs s1 = Inr s'"
    by (auto split: sum.splits)
  have w1: "well_formed s1" using step_well_formed [OF s1] Cons.prems(1) by simp
  show ?case
    using Cons.IH [OF w1 Cons.prems(2) rest]
      step_overflow_count [OF Cons.prems(1) Cons.prems(2) s1] s1
    by simp
qed

lemma run_well_formed: "run cs s = Inr s' \<Longrightarrow> well_formed s' = well_formed s"
proof (induction cs arbitrary: s)
  case Nil
  then show ?case by simp
next
  case (Cons c cs)
  from Cons.prems obtain s1 where s1: "step c s = Inr s1" and rest: "run cs s1 = Inr s'"
    by (auto split: sum.splits)
  from Cons.IH [OF rest] step_well_formed [OF s1] show ?case by simp
qed

text \<open>
  Only \<^verbatim>\<open>task_tick\<close> touches the counter: after a run it is the number of \<open>Tick\<close> calls of
  the run, modulo 1000, whatever other calls came in between. So the next call raises a
  slot exactly when the period of the slot divides its number among the \<open>Tick\<close> calls.
\<close>

lemma run_tick_count_abs:
  "unat (tick_count s) = a mod 1000 \<Longrightarrow> run cs s = Inr s' \<Longrightarrow>
   unat (tick_count s') = (a + count_list cs Tick) mod 1000"
proof (induction cs arbitrary: s a)
  case Nil
  then show ?case by simp
next
  case (Cons c cs)
  from Cons.prems(2) obtain s1 where s1: "step c s = Inr s1" and rest: "run cs s1 = Inr s'"
    by (auto split: sum.splits)
  show ?case
  proof (cases "c = Tick")
    case True
    then have "unat (tick_count s1) = Suc a mod 1000"
      using step_tick_count [OF s1] unat_task_tick_abs [OF Cons.prems(1)] by simp
    from Cons.IH [OF this rest] True show ?thesis by simp
  next
    case False
    then have "unat (tick_count s1) = a mod 1000"
      using step_tick_count [OF s1] Cons.prems(1) by simp
    from Cons.IH [OF this rest] False show ?thesis by simp
  qed
qed

lemma tick_raises_after_run:
  assumes "i < TASK_COUNT" and "run cs scheduler = Inr s'"
  shows "tick_raises i s' \<longleftrightarrow> unat (task_ticks ! i) dvd Suc (count_list cs Tick)"
proof -
  have w: "well_formed s'"
    using run_well_formed [OF assms(2)] well_formed_scheduler by simp
  have "unat (tick_count s') = (0 + count_list cs Tick) mod 1000"
    by (rule run_tick_count_abs [OF tick_count_scheduler assms(2)])
  then have "unat (tick_count s') = count_list cs Tick mod 1000" by simp
  from raised_abs [OF assms(1) this] tick_raises_iff_raised [OF w assms(1)]
  show ?thesis by simp
qed

lemma run_ticks: "run (replicate n Tick) s = Inr (task_tick_n n s)"
  by (induction n arbitrary: s) simp_all

lemma overflow_events_ticks: "overflow_events i (replicate n Tick) s = overflows i n s"
  by (induction n arbitrary: s) simp_all

section \<open>The claims\<close>

text \<open>
  C1. From the initial state, 1000 calls of \<^verbatim>\<open>task_tick\<close> with no call of
  \<^verbatim>\<open>task_handler\<close> leave the flag of the 1 Hz slot set with an overflow count of 0 (the
  slot was raised once), and have raised the 200 Hz slot 200 times, which leaves its
  overflow count at 199.
\<close>

theorem one_second_without_handler:
  "flags (task_tick_n 1000 scheduler) ! TASK_1HZ = 1 \<and>
   overflow_count (task_tick_n 1000 scheduler) ! TASK_1HZ = 0 \<and>
   raises TASK_1HZ 1000 scheduler = 1 \<and>
   raises TASK_200HZ 1000 scheduler = 200 \<and>
   overflow_count (task_tick_n 1000 scheduler) ! TASK_200HZ = 199"
proof -
  have r1: "raises TASK_1HZ 1000 scheduler = 1"
    by (simp add: raises_scheduler [OF slot_1HZ] period_1HZ)
  have r200: "raises TASK_200HZ 1000 scheduler = 200"
    by (simp add: raises_scheduler [OF slot_200HZ] period_200HZ)
  have f1: "flags (task_tick_n 1000 scheduler) ! TASK_1HZ = 1"
    by (simp add: flags_task_tick_n [OF well_formed_scheduler slot_1HZ] r1)
  have o1: "overflow_count (task_tick_n 1000 scheduler) ! TASK_1HZ = 0"
    by (simp add: overflow_count_task_tick_n [OF well_formed_scheduler slot_1HZ]
        overflows_raises [OF well_formed_scheduler slot_1HZ] r1 scheduler_nth slot_1HZ)
  have o200: "overflow_count (task_tick_n 1000 scheduler) ! TASK_200HZ = 199"
    by (simp add: overflow_count_task_tick_n [OF well_formed_scheduler slot_200HZ]
        overflows_raises [OF well_formed_scheduler slot_200HZ] r200 scheduler_nth slot_200HZ)
  from f1 o1 r1 r200 o200 show ?thesis by simp
qed

text \<open>
  C2. For every slot and every number \<open>n\<close> of calls of \<^verbatim>\<open>task_tick\<close> from the initial state
  (in particular for every \<open>n\<close> of a full second or more), the calls that raise the slot,
  as the states of the run show them, are the multiples of its entry of \<^verbatim>\<open>task_ticks\<close> up
  to \<open>n\<close>; so the number of ticks between two consecutive raises is exactly that entry,
  also across the reset of the counter. These calls write 1 to the flag of the slot and
  count an overflow where the flag was still 1; every other call leaves the flag and the
  overflow count of the slot as they are. Calls of \<^verbatim>\<open>task_handler\<close> or
  \<^verbatim>\<open>task_register_handler\<close> in between do not move the raises: after any run, the next
  call of \<^verbatim>\<open>task_tick\<close> raises the slot exactly when the entry divides the number of that
  call among the calls of \<^verbatim>\<open>task_tick\<close>.
\<close>

theorem raises_one_period_apart:
  "i < TASK_COUNT \<Longrightarrow>
   raise_ticks i n scheduler =
     map (\<lambda>j. j * unat (task_ticks ! i)) [1..<Suc (n div unat (task_ticks ! i))] \<and>
   gaps (raise_ticks i n scheduler) =
     replicate (n div unat (task_ticks ! i) - 1) (unat (task_ticks ! i)) \<and>
   (\<forall>k. 1 \<le> k \<and> k \<le> n \<longrightarrow>
      flags (task_tick_n k scheduler) ! i =
        (if k \<in> set (raise_ticks i n scheduler) then 1
         else flags (task_tick_n (k - 1) scheduler) ! i) \<and>
      overflow_count (task_tick_n k scheduler) ! i =
        (if k \<in> set (raise_ticks i n scheduler) \<and> flags (task_tick_n (k - 1) scheduler) ! i = 1
         then overflow_count (task_tick_n (k - 1) scheduler) ! i + 1
         else overflow_count (task_tick_n (k - 1) scheduler) ! i)) \<and>
   (\<forall>cs s'. run cs scheduler = Inr s' \<longrightarrow>
      (tick_raises i s' \<longleftrightarrow> unat (task_ticks ! i) dvd Suc (count_list cs Tick)))"
proof -
  assume i: "i < TASK_COUNT"
  have "gaps (raise_ticks i n scheduler) =
     replicate (n div unat (task_ticks ! i) - 1) (unat (task_ticks ! i))"
    unfolding raise_ticks_scheduler [OF i] by (rule gaps_multiples)
  with raise_ticks_scheduler [OF i] state_at_raise_ticks [OF well_formed_scheduler i]
    tick_raises_after_run [OF i]
  show ?thesis by blast
qed

theorem raises_one_period_apart_witness:
  "TASK_1HZ < TASK_COUNT \<and>
   raise_ticks TASK_1HZ 2500 scheduler = [1000, 2000] \<and>
   gaps (raise_ticks TASK_1HZ 2500 scheduler) = [1000] \<and>
   flags (task_tick_n 1000 scheduler) ! TASK_1HZ = 1 \<and>
   TASK_200HZ < TASK_COUNT \<and>
   raise_ticks TASK_200HZ 12 scheduler = [5, 10] \<and>
   gaps (raise_ticks TASK_200HZ 12 scheduler) = [5] \<and>
   flags (task_tick_n 9 scheduler) ! TASK_200HZ = 1 \<and>
   tick_raises TASK_200HZ (task_tick_n 9 scheduler) \<and>
   \<not> tick_raises TASK_200HZ (task_tick_n 10 scheduler) \<and>
   overflow_count (task_tick_n 10 scheduler) ! TASK_200HZ =
     overflow_count (task_tick_n 9 scheduler) ! TASK_200HZ + 1 \<and>
   run [Tick, Tick, Tick, Tick, Tick, Handler, Tick, Tick, Tick, Tick] scheduler =
     Inr (scheduler\<lparr>tick_count := 9\<rparr>) \<and>
   tick_raises TASK_200HZ (scheduler\<lparr>tick_count := 9\<rparr>) \<and>
   flags (scheduler\<lparr>tick_count := 9\<rparr>) ! TASK_200HZ = 0 \<and>
   flags (task_tick (scheduler\<lparr>tick_count := 9\<rparr>)) ! TASK_200HZ = 1"
proof -
  from raises_one_period_apart [OF slot_1HZ, of 2500]
  have ticks: "raise_ticks TASK_1HZ 2500 scheduler = [1000, 2000]"
    and dist: "gaps (raise_ticks TASK_1HZ 2500 scheduler) = [1000]"
    and writes: "\<forall>k. 1 \<le> k \<and> k \<le> 2500 \<longrightarrow>
      flags (task_tick_n k scheduler) ! TASK_1HZ =
        (if k \<in> set (raise_ticks TASK_1HZ 2500 scheduler) then 1
         else flags (task_tick_n (k - 1) scheduler) ! TASK_1HZ)"
    by (simp_all add: period_1HZ upt_rec gaps_def)
  from writes [rule_format, of 1000] ticks
  have first: "flags (task_tick_n 1000 scheduler) ! TASK_1HZ = 1" by simp
  have pending: "flags (task_tick_n 9 scheduler) ! TASK_200HZ = 1" by code_simp
  have tenth: "tick_raises TASK_200HZ (task_tick_n 9 scheduler)" by code_simp
  have eleventh: "\<not> tick_raises TASK_200HZ (task_tick_n 10 scheduler)" by code_simp
  from raises_one_period_apart [OF slot_200HZ, of 12]
  have computed: "raise_ticks TASK_200HZ 12 scheduler = [5, 10]"
    and dist': "gaps (raise_ticks TASK_200HZ 12 scheduler) = [5]"
    and states: "\<forall>k. 1 \<le> k \<and> k \<le> 12 \<longrightarrow>
      overflow_count (task_tick_n k scheduler) ! TASK_200HZ =
        (if k \<in> set (raise_ticks TASK_200HZ 12 scheduler) \<and>
            flags (task_tick_n (k - 1) scheduler) ! TASK_200HZ = 1
         then overflow_count (task_tick_n (k - 1) scheduler) ! TASK_200HZ + 1
         else overflow_count (task_tick_n (k - 1) scheduler) ! TASK_200HZ)"
    and runs: "\<forall>cs s'. run cs scheduler = Inr s' \<longrightarrow>
      (tick_raises TASK_200HZ s' \<longleftrightarrow> 5 dvd Suc (count_list cs Tick))"
    by (simp_all add: period_200HZ upt_rec gaps_def)
  from states [rule_format, of 10] computed pending
  have second: "overflow_count (task_tick_n 10 scheduler) ! TASK_200HZ =
     overflow_count (task_tick_n 9 scheduler) ! TASK_200HZ + 1"
    by simp
  have served: "run [Tick, Tick, Tick, Tick, Tick, Handler, Tick, Tick, Tick, Tick] scheduler =
     Inr (scheduler\<lparr>tick_count := 9\<rparr>)"
    by code_simp
  have count: "count_list [Tick, Tick, Tick, Tick, Tick, Handler, Tick, Tick, Tick, Tick] Tick = 9"
    by code_simp
  from runs [rule_format, OF served]
  have "tick_raises TASK_200HZ (scheduler\<lparr>tick_count := 9\<rparr>) \<longleftrightarrow> 5 dvd Suc 9"
    by (simp only: count)
  then have again: "tick_raises TASK_200HZ (scheduler\<lparr>tick_count := 9\<rparr>)" by simp
  have clear: "flags (scheduler\<lparr>tick_count := 9\<rparr>) ! TASK_200HZ = 0"
    by (simp add: scheduler_nth slot_200HZ)
  from again have set: "flags (task_tick (scheduler\<lparr>tick_count := 9\<rparr>)) ! TASK_200HZ = 1"
    by (simp add: tick_raises_def)
  from ticks dist first computed dist' pending tenth eleventh second served again clear set
    slot_1HZ slot_200HZ
  show ?thesis by simp
qed

text \<open>
  C3 as it is stated fails where the 8-bit counter wraps: 1285 calls from the initial
  state raise the 200 Hz slot 257 times with no call of \<^verbatim>\<open>task_handler\<close>, and its overflow
  count is 0 before and 0 after, not 256 or more.
\<close>

theorem overflow_after_k_raises_counterexample:
  "well_formed scheduler \<and> TASK_200HZ < TASK_COUNT \<and>
   raises TASK_200HZ 1285 scheduler = 257 \<and>
   overflow_count scheduler ! TASK_200HZ = 0 \<and>
   overflow_count (task_tick_n 1285 scheduler) ! TASK_200HZ = 0 \<and>
   \<not> unat (overflow_count scheduler ! TASK_200HZ) + (257 - 1)
       \<le> unat (overflow_count (task_tick_n 1285 scheduler) ! TASK_200HZ)"
proof -
  have r: "raises TASK_200HZ 1285 scheduler = 257"
    by (simp add: raises_scheduler [OF slot_200HZ] period_200HZ)
  have o: "overflow_count (task_tick_n 1285 scheduler) ! TASK_200HZ = 0"
    by (simp add: overflow_count_task_tick_n [OF well_formed_scheduler slot_200HZ]
        overflows_raises [OF well_formed_scheduler slot_200HZ] r scheduler_nth slot_200HZ)
  show ?thesis
    by (simp add: r o well_formed_scheduler slot_200HZ scheduler_nth)
qed

text \<open>
  C3, amended. For every slot and every \<open>k \<ge> 1\<close>: \<open>k\<close> raises of the slot by \<^verbatim>\<open>task_tick\<close>
  with no call of \<^verbatim>\<open>task_handler\<close> in between add \<open>k - 1\<close> to its overflow count when the
  flag was not 1 at the first raise, and \<open>k\<close> when it was, in 8-bit arithmetic (modulo
  256). As long as the counter does not wrap (old value plus \<open>k\<close> below 256), its value
  increases by at least \<open>k - 1\<close>.
\<close>

theorem overflow_after_k_raises:
  assumes "well_formed s" and "i < TASK_COUNT" and "1 \<le> raises i n s"
  shows "unat (overflow_count (task_tick_n n s) ! i) =
           (unat (overflow_count s ! i) +
            (if flags s ! i = 1 then raises i n s else raises i n s - 1)) mod 256 \<and>
         (unat (overflow_count s ! i) + raises i n s < 256 \<longrightarrow>
            unat (overflow_count s ! i) + (raises i n s - 1)
              \<le> unat (overflow_count (task_tick_n n s) ! i))"
proof -
  let ?m = "if flags s ! i = 1 then raises i n s else raises i n s - 1"
  have "overflow_count (task_tick_n n s) ! i = overflow_count s ! i + of_nat ?m"
    using overflow_count_task_tick_n [OF assms(1,2), of n] overflows_raises [OF assms(1,2), of n]
    by simp
  then have eq: "unat (overflow_count (task_tick_n n s) ! i) =
      (unat (overflow_count s ! i) + ?m) mod 256"
    by (simp add: unat_word_ariths unat_of_nat mod_add_right_eq)
  moreover have "unat (overflow_count s ! i) + raises i n s < 256 \<Longrightarrow>
      unat (overflow_count s ! i) + (raises i n s - 1)
        \<le> unat (overflow_count (task_tick_n n s) ! i)"
    unfolding eq using assms(3) by (auto simp: mod_less)
  ultimately show ?thesis by blast
qed

theorem overflow_after_k_raises_witness:
  "well_formed scheduler \<and> TASK_200HZ < TASK_COUNT \<and>
   raises TASK_200HZ 12 scheduler = 2 \<and>
   unat (overflow_count (task_tick_n 12 scheduler) ! TASK_200HZ) = 1"
proof -
  have r: "raises TASK_200HZ 12 scheduler = 2"
    by (simp add: raises_scheduler [OF slot_200HZ] period_200HZ)
  then have "1 \<le> raises TASK_200HZ 12 scheduler" by simp
  from overflow_after_k_raises [OF well_formed_scheduler slot_200HZ this] r
  show ?thesis
    by (simp add: well_formed_scheduler slot_200HZ scheduler_nth)
qed

text \<open>
  C4. From a state with \<^verbatim>\<open>tick_count\<close> 0, after any sequence of calls the counter is at
  most 999, and so it is after one more call of \<^verbatim>\<open>task_tick\<close>, which sets it to 0 exactly
  when the incremented value is 1000 and to the incremented value otherwise.
\<close>

theorem tick_count_below_one_second:
  assumes "tick_count s = 0" and "run cs s = Inr s'"
  shows "unat (tick_count s') \<le> 999 \<and>
         unat (tick_count (task_tick s')) \<le> 999 \<and>
         unat (tick_count (task_tick s')) =
           (if unat (tick_count s') + 1 = 1000 then 0 else unat (tick_count s') + 1)"
proof -
  have "unat (tick_count s) < 1000" using assms(1) by simp
  from run_tick_count_bounded [OF this assms(2)]
  have b: "unat (tick_count s') < 1000" .
  from unat_task_tick [OF b] b show ?thesis by auto
qed

theorem tick_count_below_one_second_witness:
  "tick_count scheduler = 0 \<and>
   run (replicate 999 Tick) scheduler = Inr (task_tick_n 999 scheduler) \<and>
   unat (tick_count (task_tick_n 999 scheduler)) = 999 \<and>
   unat (tick_count (task_tick (task_tick_n 999 scheduler))) = 0"
proof -
  have h1: "tick_count scheduler = 0" by (simp add: scheduler_def)
  have h2: "run (replicate 999 Tick) scheduler = Inr (task_tick_n 999 scheduler)"
    by (rule run_ticks)
  have v: "unat (tick_count (task_tick_n 999 scheduler)) = 999"
    using unat_task_tick_n_abs [OF tick_count_scheduler, of 999] by simp
  from tick_count_below_one_second [OF h1 h2] h1 h2 v show ?thesis by simp
qed

text \<open>
  C5. \<^verbatim>\<open>task_handler\<close> calls the registered functions of the slots whose flag is set, in
  ascending order of the slots; every function called finds the flag of its own slot
  already cleared; every slot is called at most once (once when its flag is set and a
  function is registered, not at all otherwise); and afterwards every flag is clear, also
  that of a ready slot with no registered function.
\<close>

theorem task_handler_dispatch:
  "well_formed s \<Longrightarrow>
   map slot (snd (task_handler s)) =
     filter (\<lambda>k. flags s ! k \<noteq> 0 \<and> handler_cb s ! k \<noteq> None) [0..<TASK_COUNT] \<and>
   sorted_wrt (<) (map slot (snd (task_handler s))) \<and>
   (\<forall>e \<in> set (snd (task_handler s)).
      handler_cb s ! slot e = Some (callee e) \<and> flags_seen e ! slot e = 0) \<and>
   (\<forall>k < TASK_COUNT.
      count_list (map slot (snd (task_handler s))) k =
        (if flags s ! k \<noteq> 0 \<and> handler_cb s ! k \<noteq> None then 1 else 0)) \<and>
   fst (task_handler s) = s\<lparr>flags := replicate TASK_COUNT 0\<rparr>"
proof -
  assume w: "well_formed s"
  have asc: "sorted_wrt (<) (map slot (snd (task_handler s)))"
    unfolding task_handler_slots by (rule sorted_wrt_filter) (rule sorted_wrt_upt)
  have once: "\<forall>k < TASK_COUNT.
      count_list (map slot (snd (task_handler s))) k =
        (if flags s ! k \<noteq> 0 \<and> handler_cb s ! k \<noteq> None then 1 else 0)"
    unfolding task_handler_slots by (simp add: count_list_filter count_list_upt)
  show ?thesis
    using asc once task_handler_slots [of s] task_handler_events [OF w] task_handler_state [OF w]
    by blast
qed

theorem task_handler_dispatch_witness:
  "well_formed (scheduler\<lparr>flags := [1, 0, 0, 1, 0, 0, 1, 1],
      handler_cb := [Some 10, None, Some 11, None, None, None, None, Some 12]\<rparr>) \<and>
   snd (task_handler (scheduler\<lparr>flags := [1, 0, 0, 1, 0, 0, 1, 1],
      handler_cb := [Some 10, None, Some 11, None, None, None, None, Some 12]\<rparr>)) =
     [Invocation 0 10 [0, 0, 0, 1, 0, 0, 1, 1], Invocation 7 12 [0, 0, 0, 0, 0, 0, 0, 0]] \<and>
   map slot (snd (task_handler (scheduler\<lparr>flags := [1, 0, 0, 1, 0, 0, 1, 1],
      handler_cb := [Some 10, None, Some 11, None, None, None, None, Some 12]\<rparr>))) = [0, 7] \<and>
   flags (fst (task_handler (scheduler\<lparr>flags := [1, 0, 0, 1, 0, 0, 1, 1],
      handler_cb := [Some 10, None, Some 11, None, None, None, None, Some 12]\<rparr>))) =
     [0, 0, 0, 0, 0, 0, 0, 0]"
proof -
  let ?s = "scheduler\<lparr>flags := [1, 0, 0, 1, 0, 0, 1, 1],
      handler_cb := [Some 10, None, Some 11, None, None, None, None, Some 12]\<rparr>"
  have w: "well_formed ?s"
    by (simp add: well_formed_def scheduler_def TASK_COUNT_def)
  have tr: "snd (task_handler ?s) =
     [Invocation 0 10 [0, 0, 0, 1, 0, 0, 1, 1], Invocation 7 12 [0, 0, 0, 0, 0, 0, 0, 0]]"
    by code_simp
  have zeros: "replicate TASK_COUNT (0 :: 8 word) = [0, 0, 0, 0, 0, 0, 0, 0]"
    by code_simp
  from task_handler_dispatch [OF w]
  have "fst (task_handler ?s) = ?s\<lparr>flags := replicate TASK_COUNT 0\<rparr>"
    by (elim conjE)
  then show ?thesis using w tr zeros by simp
qed

text \<open>
  C6. For a slot identifier that is not less than \<^verbatim>\<open>TASK_COUNT\<close> and any callback,
  \<^verbatim>\<open>task_register_handler\<close> returns without an error and leaves the whole scheduler state
  as it was.
\<close>

theorem register_out_of_range:
  "int TASK_COUNT \<le> task_type \<Longrightarrow> task_register_handler task_type handler s = Inr s"
  by (simp add: task_register_handler_def)

theorem register_out_of_range_witness:
  "int TASK_COUNT \<le> 8 \<and> task_register_handler 8 (Some 3) scheduler = Inr scheduler"
  using register_out_of_range [of 8 "Some 3" scheduler]
  by (simp add: TASK_COUNT_def)

text \<open>
  C7. For a slot with no registered function: once enough calls of \<^verbatim>\<open>task_tick\<close> have
  raised its flag, one call of \<^verbatim>\<open>task_handler\<close> clears the flag, calls nothing for the slot
  and leaves its overflow count alone; and the next raise of the slot finds the flag
  clear, so the overflow count is still the same after it.
\<close>

theorem unregistered_slot_is_drained:
  assumes "well_formed s" and "i < TASK_COUNT" and "handler_cb s ! i = None"
    and "1 \<le> raises i n s"
  shows "flags (task_tick_n n s) ! i = 1 \<and>
         flags (fst (task_handler (task_tick_n n s))) ! i = 0 \<and>
         i \<notin> slot ` set (snd (task_handler (task_tick_n n s))) \<and>
         overflow_count (fst (task_handler (task_tick_n n s))) ! i =
           overflow_count (task_tick_n n s) ! i \<and>
         (\<forall>m. raises i m (fst (task_handler (task_tick_n n s))) \<le> 1 \<longrightarrow>
            overflow_count (task_tick_n m (fst (task_handler (task_tick_n n s)))) ! i =
              overflow_count (task_tick_n n s) ! i)"
proof -
  let ?s1 = "task_tick_n n s"
  let ?s2 = "fst (task_handler ?s1)"
  have w1: "well_formed ?s1" using assms(1) by simp
  have w2: "well_formed ?s2" using w1 by simp
  have raised: "flags ?s1 ! i = 1"
    using flags_task_tick_n [OF assms(1,2), of n] assms(4) by simp
  have cleared: "flags ?s2 ! i = 0"
    using assms(2) by (simp add: task_handler_flags [OF w1])
  have "set (map slot (snd (task_handler ?s1))) \<subseteq> {k. handler_cb ?s1 ! k \<noteq> None}"
    unfolding task_handler_slots by auto
  then have silent: "i \<notin> slot ` set (snd (task_handler ?s1))"
    using assms(3) by auto
  have kept: "overflow_count ?s2 ! i = overflow_count ?s1 ! i"
    by (simp add: task_handler_state [OF w1])
  have later: "overflow_count (task_tick_n m ?s2) ! i = overflow_count ?s1 ! i"
    if "raises i m ?s2 \<le> 1" for m
    using overflow_count_task_tick_n [OF w2 assms(2), of m]
      overflows_raises [OF w2 assms(2), of m] cleared kept that
    by simp
  from raised cleared silent kept later show ?thesis by blast
qed

theorem unregistered_slot_is_drained_witness:
  "well_formed scheduler \<and> TASK_200HZ < TASK_COUNT \<and>
   handler_cb scheduler ! TASK_200HZ = None \<and>
   raises TASK_200HZ 5 scheduler = 1 \<and>
   flags (task_tick_n 5 scheduler) ! TASK_200HZ = 1 \<and>
   flags (fst (task_handler (task_tick_n 5 scheduler))) ! TASK_200HZ = 0 \<and>
   snd (task_handler (task_tick_n 5 scheduler)) = [] \<and>
   raises TASK_200HZ 5 (fst (task_handler (task_tick_n 5 scheduler))) = 1 \<and>
   overflow_count (task_tick_n 5 (fst (task_handler (task_tick_n 5 scheduler)))) ! TASK_200HZ = 0"
proof -
  have h3: "handler_cb scheduler ! TASK_200HZ = None"
    by (simp add: scheduler_nth slot_200HZ)
  have r: "raises TASK_200HZ 5 scheduler = 1" by code_simp
  then have h4: "1 \<le> raises TASK_200HZ 5 scheduler" by simp
  have tr: "snd (task_handler (task_tick_n 5 scheduler)) = []" by code_simp
  have r2: "raises TASK_200HZ 5 (fst (task_handler (task_tick_n 5 scheduler))) = 1"
    by code_simp
  have o: "overflow_count (task_tick_n 5 scheduler) ! TASK_200HZ = 0" by code_simp
  from unregistered_slot_is_drained [OF well_formed_scheduler slot_200HZ h3 h4]
  show ?thesis using well_formed_scheduler slot_200HZ h3 r tr r2 o by simp
qed

text \<open>
  C8. The overflow count of a slot is an 8-bit value that wraps: after any run of calls
  from the initial state it is the number of overflow events of the slot modulo 256, so it
  reads 0 again after exactly 256 overflow events.
\<close>

theorem overflow_count_wraps:
  assumes "i < TASK_COUNT" and "run cs scheduler = Inr s'"
  shows "unat (overflow_count s' ! i) = overflow_events i cs scheduler mod 256 \<and>
         (overflow_events i cs scheduler = 256 \<longrightarrow> overflow_count s' ! i = 0)"
proof -
  have "overflow_count s' ! i = of_nat (overflow_events i cs scheduler)"
    using run_overflow_count [OF well_formed_scheduler assms] assms(1)
    by (simp add: scheduler_nth)
  then show ?thesis by (auto simp: unat_of_nat)
qed

theorem overflow_count_wraps_witness:
  "TASK_200HZ < TASK_COUNT \<and>
   run (replicate 1285 Tick) scheduler = Inr (task_tick_n 1285 scheduler) \<and>
   overflow_events TASK_200HZ (replicate 1285 Tick) scheduler = 256 \<and>
   unat (overflow_count (task_tick_n 1285 scheduler) ! TASK_200HZ) = 0 \<and>
   overflow_count (task_tick_n 1285 scheduler) ! TASK_200HZ = 0"
proof -
  have h2: "run (replicate 1285 Tick) scheduler = Inr (task_tick_n 1285 scheduler)"
    by (rule run_ticks)
  have "raises TASK_200HZ 1285 scheduler = 257"
    by (simp add: raises_scheduler [OF slot_200HZ] period_200HZ)
  then have ev: "overflow_events TASK_200HZ (replicate 1285 Tick) scheduler = 256"
    by (simp add: overflow_events_ticks overflows_raises [OF well_formed_scheduler slot_200HZ]
        scheduler_nth slot_200HZ)
  from overflow_count_wraps [OF slot_200HZ h2] slot_200HZ h2 ev show ?thesis by simp
qed

text \<open>
  C9. After one call of \<^verbatim>\<open>task_handler\<close> every flag is 0 (callbacks leave the scheduler
  alone in this model), so a second call right after it calls nothing and leaves the
  state as it is.
\<close>

theorem task_handler_idempotent:
  "well_formed s \<Longrightarrow>
   flags (fst (task_handler s)) = replicate TASK_COUNT 0 \<and>
   task_handler (fst (task_handler s)) = (fst (task_handler s), [])"
  by (simp add: task_handler_flags task_handler_idle)

theorem task_handler_idempotent_witness:
  "well_formed (scheduler\<lparr>flags := [1, 0, 0, 1, 0, 0, 1, 1],
      handler_cb := [Some 10, None, Some 11, None, None, None, None, Some 12]\<rparr>) \<and>
   task_handler (scheduler\<lparr>flags := [1, 0, 0, 1, 0, 0, 1, 1],
      handler_cb := [Some 10, None, Some 11, None, None, None, None, Some 12]\<rparr>) =
     (scheduler\<lparr>handler_cb := [Some 10, None, Some 11, None, None, None, None, Some 12]\<rparr>,
      [Invocation 0 10 [0, 0, 0, 1, 0, 0, 1, 1], Invocation 7 12 [0, 0, 0, 0, 0, 0, 0, 0]]) \<and>
   task_handler (scheduler\<lparr>handler_cb := [Some 10, None, Some 11, None, None, None, None, Some 12]\<rparr>) =
     (scheduler\<lparr>handler_cb := [Some 10, None, Some 11, None, None, None, None, Some 12]\<rparr>, [])"
proof -
  let ?s = "scheduler\<lparr>flags := [1, 0, 0, 1, 0, 0, 1, 1],
      handler_cb := [Some 10, None, Some 11, None, None, None, None, Some 12]\<rparr>"
  let ?s' = "scheduler\<lparr>handler_cb := [Some 10, None, Some 11, None, None, None, None, Some 12]\<rparr>"
  have w: "well_formed ?s"
    by (simp add: well_formed_def scheduler_def TASK_COUNT_def)
  have first: "task_handler ?s =
     (?s', [Invocation 0 10 [0, 0, 0, 1, 0, 0, 1, 1], Invocation 7 12 [0, 0, 0, 0, 0, 0, 0, 0]])"
    by code_simp
  from task_handler_idempotent [OF w] w first show ?thesis by simp
qed

text \<open>
  C10. Registration for a slot in range overwrites the entry of the slot, so a later
  registration replaces an earlier one. After registering \<^verbatim>\<open>NULL\<close> the entry is \<^verbatim>\<open>NULL\<close>,
  and \<^verbatim>\<open>task_handler\<close> clears the flag of the slot and calls nothing for it; for a slot that
  had never been registered, registering a function and then \<^verbatim>\<open>NULL\<close> gives back the very
  state from before.
\<close>

theorem register_null_unbinds:
  assumes "well_formed s" and "0 \<le> t" and "t < int TASK_COUNT"
  shows "task_register_handler t h s = Inr (s\<lparr>handler_cb := (handler_cb s)[nat t := h]\<rparr>) \<and>
         task_register_handler t h2 (s\<lparr>handler_cb := (handler_cb s)[nat t := h]\<rparr>) =
           task_register_handler t h2 s \<and>
         handler_cb (s\<lparr>handler_cb := (handler_cb s)[nat t := None]\<rparr>) ! nat t = None \<and>
         flags (fst (task_handler (s\<lparr>handler_cb := (handler_cb s)[nat t := None]\<rparr>))) ! nat t = 0 \<and>
         nat t \<notin> slot ` set (snd (task_handler (s\<lparr>handler_cb := (handler_cb s)[nat t := None]\<rparr>))) \<and>
         (handler_cb s ! nat t = None \<longrightarrow>
            task_register_handler t None (s\<lparr>handler_cb := (handler_cb s)[nat t := h]\<rparr>) = Inr s)"
proof -
  let ?u = "s\<lparr>handler_cb := (handler_cb s)[nat t := None]\<rparr>"
  have i: "nat t < TASK_COUNT" using assms(2,3) by simp
  have wu: "well_formed ?u" using assms(1) by (simp add: well_formed_def)
  have null: "handler_cb ?u ! nat t = None"
    using assms(1) i by (simp add: well_formed_def)
  have cleared: "flags (fst (task_handler ?u)) ! nat t = 0"
    using i by (simp add: task_handler_flags [OF wu])
  have "set (map slot (snd (task_handler ?u))) \<subseteq> {k. handler_cb ?u ! k \<noteq> None}"
    unfolding task_handler_slots by auto
  then have silent: "nat t \<notin> slot ` set (snd (task_handler ?u))"
    using null by auto
  have restored: "task_register_handler t None (s\<lparr>handler_cb := (handler_cb s)[nat t := h]\<rparr>) = Inr s"
    if "handler_cb s ! nat t = None"
    using list_update_id [of "handler_cb s" "nat t"] that assms(2,3)
    by (simp add: task_register_handler_def)
  show ?thesis
    using null cleared silent restored assms(2,3)
    by (simp add: task_register_handler_def)
qed

theorem register_null_unbinds_witness:
  "well_formed (scheduler\<lparr>flags := [0, 0, 0, 1, 0, 0, 0, 0]\<rparr>) \<and> (0::int) \<le> 3 \<and>
   3 < int TASK_COUNT \<and>
   task_register_handler 3 (Some 4) (scheduler\<lparr>flags := [0, 0, 0, 1, 0, 0, 0, 0]\<rparr>) =
     Inr (scheduler\<lparr>flags := [0, 0, 0, 1, 0, 0, 0, 0],
            handler_cb := [None, None, None, Some 4, None, None, None, None]\<rparr>) \<and>
   task_register_handler 3 None (scheduler\<lparr>flags := [0, 0, 0, 1, 0, 0, 0, 0],
            handler_cb := [None, None, None, Some 4, None, None, None, None]\<rparr>) =
     Inr (scheduler\<lparr>flags := [0, 0, 0, 1, 0, 0, 0, 0]\<rparr>) \<and>
   task_handler (scheduler\<lparr>flags := [0, 0, 0, 1, 0, 0, 0, 0]\<rparr>) = (scheduler, [])"
proof -
  let ?s = "scheduler\<lparr>flags := [0, 0, 0, 1, 0, 0, 0, 0]\<rparr>"
  have w: "well_formed ?s"
    by (simp add: well_formed_def scheduler_def TASK_COUNT_def)
  have h2: "(0::int) \<le> 3" by simp
  have h3: "3 < int TASK_COUNT" by (simp add: TASK_COUNT_def)
  have cb: "(handler_cb ?s)[nat 3 := Some 4] = [None, None, None, Some 4, None, None, None, None]"
    by code_simp
  have unreg: "handler_cb ?s ! nat 3 = None" by code_simp
  have run: "task_handler ?s = (scheduler, [])" by code_simp
  have direct: "task_register_handler 3 None ?s = Inr ?s" by code_simp
  from register_null_unbinds [OF w h2 h3, of "Some 4" None] cb unreg
  show ?thesis using w h3 run direct by simp
qed

end
